theory Spec2Isabelle
  imports Main
begin

section \<open>The file tree of the ZIP listing: data model\<close>

text \<open>
  The component \<^verbatim>\<open>FileTree\<close> receives the flat list of entry paths of an uploaded
  archive, rebuilds the folder hierarchy with \<^verbatim>\<open>buildTree\<close>, and maintains the array
  \<^verbatim>\<open>selected\<close> of chosen paths through \<^verbatim>\<open>toggleFile\<close> and \<^verbatim>\<open>toggleFolder\<close>, and the
  set \<^verbatim>\<open>expanded\<close> of open folders through \<^verbatim>\<open>toggleExpand\<close>.

  A JavaScript string is modelled as a \<^typ>\<open>string\<close> (one \<^typ>\<open>char\<close> per code unit), an
  array as a list, \<^verbatim>\<open>Set<string>\<close> as a \<^typ>\<open>string set\<close>, and an optional field as an
  \<^typ>\<open>'a option\<close> (\<^const>\<open>None\<close> is \<^verbatim>\<open>undefined\<close>).
\<close>

text \<open>\<^verbatim>\<open>interface FileNode { name: string; path: string; children?: FileNode[] }\<close>\<close>

datatype FileNode =
  FileNode (name: string) (path: string) (children: "FileNode list option")

text \<open>
  While it builds the tree, \<^verbatim>\<open>buildTree\<close> keeps every level in a plain object
  (\<^verbatim>\<open>Record<string, any>\<close>) that maps a segment to an entry \<^verbatim>\<open>{ __node: { name, path,
  children } }\<close>, where \<^verbatim>\<open>children\<close> is \<^verbatim>\<open>undefined\<close> or the plain object of the next
  level. A plain object is modelled as the list of its own properties in the order in
  which \<^verbatim>\<open>Object.values\<close> enumerates them.
\<close>

datatype RawNode =
  RawNode (rname: string) (rpath: string) (rchildren: "(string \<times> RawNode) list option")

type_synonym JsObject = "(string \<times> RawNode) list"

datatype js_error = TypeError

subsection \<open>Plain objects: property lookup and own-property order\<close>

text \<open>
  A plain object inherits from \<^verbatim>\<open>Object.prototype\<close>: reading \<^verbatim>\<open>current[part]\<close> for a
  \<^verbatim>\<open>part\<close> that is no own property yields the inherited property when
  \<^verbatim>\<open>Object.prototype\<close> has one of that name (a function, or the prototype object itself
  for \<^verbatim>\<open>__proto__\<close>: truthy, and without a \<^verbatim>\<open>__node\<close> property), and \<^verbatim>\<open>undefined\<close>
  otherwise.
\<close>

definition object_prototype_keys :: "string list" where
  "object_prototype_keys =
     [''constructor'', ''__defineGetter__'', ''__defineSetter__'', ''hasOwnProperty'',
      ''__lookupGetter__'', ''__lookupSetter__'', ''isPrototypeOf'',
      ''propertyIsEnumerable'', ''toString'', ''valueOf'', ''__proto__'',
      ''toLocaleString'']"

datatype js_prop = Own RawNode | Inherited | Undefined

definition js_get :: "JsObject \<Rightarrow> string \<Rightarrow> js_prop" where
  "js_get obj k =
     (case map_of obj k of
        Some e \<Rightarrow> Own e
      | None \<Rightarrow> if k \<in> set object_prototype_keys then Inherited else Undefined)"

text \<open>
  Own properties are enumerated with the array indices first, in ascending numeric
  order, and then the other string keys in the order of their creation. An array index
  is the canonical decimal numeral of an integer from 0 to \<open>2\<^sup>3\<^sup>2 - 2\<close>.
\<close>

definition is_digit :: "char \<Rightarrow> bool" where
  "is_digit c = ((48::int) \<le> of_char c \<and> (of_char c :: int) \<le> 57)"

definition digits_value :: "string \<Rightarrow> int" where
  "digits_value s = foldl (\<lambda>n c. 10 * n + (of_char c - 48)) 0 s"

definition is_array_index :: "string \<Rightarrow> bool" where
  "is_array_index s =
     (s \<noteq> [] \<and> list_all is_digit s \<and> (s = ''0'' \<or> hd s \<noteq> CHR ''0'') \<and>
      length s \<le> 10 \<and> digits_value s \<le> 4294967294)"

text \<open>Whether a new key \<open>k\<close> is enumerated before the existing own key \<open>k'\<close>.\<close>

definition key_before :: "string \<Rightarrow> string \<Rightarrow> bool" where
  "key_before k k' =
     (is_array_index k \<and>
      (if is_array_index k' then digits_value k < digits_value k' else True))"

text \<open>\<^verbatim>\<open>obj[k] = e\<close> for a key that is no own property yet.\<close>

fun js_add :: "JsObject \<Rightarrow> string \<Rightarrow> RawNode \<Rightarrow> JsObject" where
  "js_add [] k e = [(k, e)]"
| "js_add ((k', e') # rest) k e =
     (if key_before k k' then (k, e) # (k', e') # rest else (k', e') # js_add rest k e)"

text \<open>
  The entry under an own key is replaced in place: the model of a mutation of the
  object that \<^verbatim>\<open>obj[k].__node.children\<close> refers to.
\<close>

fun js_replace :: "JsObject \<Rightarrow> string \<Rightarrow> RawNode \<Rightarrow> JsObject" where
  "js_replace [] k e = []"
| "js_replace ((k', e') # rest) k e =
     (if k' = k then (k, e) # rest else (k', e') # js_replace rest k e)"

section \<open>buildTree\<close>

text \<open>\<^verbatim>\<open>s.split("/")\<close>: the pieces between the separators, empty pieces included.\<close>

fun split_on :: "char \<Rightarrow> string \<Rightarrow> string list" where
  "split_on d [] = [[]]"
| "split_on d (c # cs) =
     (if c = d then [] # split_on d cs
      else (case split_on d cs of [] \<Rightarrow> [[c]] | s # ss \<Rightarrow> (c # s) # ss))"

definition backslash :: char where
  "backslash = CHR 0x5C"

text \<open>\<^verbatim>\<open>filePath.replace(/\\/g, "/").split("/").filter(Boolean)\<close>\<close>

definition path_parts :: "string \<Rightarrow> string list" where
  "path_parts filePath =
     filter (\<lambda>s. s \<noteq> [])
       (split_on CHR ''/'' (map (\<lambda>c. if c = backslash then CHR ''/'' else c) filePath))"

text \<open>\<^verbatim>\<open>currentPath ? `${currentPath}/${part}` : part\<close>\<close>

definition extend_path :: "string \<Rightarrow> string \<Rightarrow> string" where
  "extend_path currentPath part =
     (if currentPath \<noteq> [] then currentPath @ ''/'' @ part else part)"

text \<open>
  The body of \<^verbatim>\<open>parts.forEach((part, i) => ...)\<close>, from the object \<open>current\<close> on, as
  a function that returns the updated object. The test \<^verbatim>\<open>i === parts.length - 1\<close> is
  \<open>rest = []\<close>.

  \<^item> \<^verbatim>\<open>current[part]\<close> inherited from \<^verbatim>\<open>Object.prototype\<close>: it is truthy, so no entry is
    created, and \<^verbatim>\<open>current[part].__node.children\<close> reads a property of \<^verbatim>\<open>undefined\<close>: a
    \<^verbatim>\<open>TypeError\<close> that ends \<^verbatim>\<open>buildTree\<close>.
  \<^item> \<^verbatim>\<open>current[part].__node.children\<close> undefined: \<^verbatim>\<open>current\<close> becomes the fresh object of
    \<^verbatim>\<open>?? {}\<close>, which no entry refers to. The remaining parts are written there, and
    nothing of them reaches the tree (only a \<^verbatim>\<open>TypeError\<close> among them does).
\<close>

fun walk_parts :: "JsObject \<Rightarrow> string \<Rightarrow> string list \<Rightarrow> js_error + JsObject" where
  "walk_parts current currentPath [] = Inr current"
| "walk_parts current currentPath (part # rest) =
     (case js_get current part of
        Inherited \<Rightarrow> Inl TypeError
      | Own e \<Rightarrow>
          (case rchildren e of
             None \<Rightarrow>
               (case walk_parts [] (extend_path currentPath part) rest of
                  Inl err \<Rightarrow> Inl err
                | Inr _ \<Rightarrow> Inr current)
           | Some ch \<Rightarrow>
               (case walk_parts ch (extend_path currentPath part) rest of
                  Inl err \<Rightarrow> Inl err
                | Inr ch' \<Rightarrow>
                    Inr (js_replace current part (RawNode (rname e) (rpath e) (Some ch')))))
      | Undefined \<Rightarrow>
          (if rest = []
           then Inr (js_add current part (RawNode part (extend_path currentPath part) None))
           else
             (case walk_parts [] (extend_path currentPath part) rest of
                Inl err \<Rightarrow> Inl err
              | Inr ch' \<Rightarrow>
                  Inr (js_add current part
                         (RawNode part (extend_path currentPath part) (Some ch'))))))"

text \<open>\<^verbatim>\<open>files.forEach((filePath) => { if (!filePath) return; ... })\<close> on \<open>root\<close>.\<close>

fun add_files :: "JsObject \<Rightarrow> string list \<Rightarrow> js_error + JsObject" where
  "add_files root [] = Inr root"
| "add_files root (filePath # files) =
     (if filePath = [] then add_files root files
      else
        (case walk_parts root [] (path_parts filePath) of
           Inl err \<Rightarrow> Inl err
         | Inr root' \<Rightarrow> add_files root' files))"

text \<open>
  \<^verbatim>\<open>convert\<close>: every entry of the model has its \<^verbatim>\<open>__node\<close>, so the \<^verbatim>\<open>null\<close> branch and the
  final \<^verbatim>\<open>filter\<close> drop nothing. \<^verbatim>\<open>children\<close> is set only for a non-empty object.
\<close>

fun convert :: "JsObject \<Rightarrow> FileNode list"
  and convert_entry :: "RawNode \<Rightarrow> FileNode" where
  "convert [] = []"
| "convert ((k, entry) # rest) = convert_entry entry # convert rest"
| "convert_entry (RawNode n p ch) =
     FileNode n p
       (case ch of
          None \<Rightarrow> None
        | Some c \<Rightarrow> if c \<noteq> [] then Some (convert c) else None)"

definition buildTree :: "string list \<Rightarrow> js_error + FileNode list" where
  "buildTree files =
     (case add_files [] files of
        Inl err \<Rightarrow> Inl err
      | Inr root \<Rightarrow> Inr (convert root))"

section \<open>The selection\<close>

text \<open>
  The functions of the component close over its state: the tree, the array
  \<^verbatim>\<open>selected\<close> and the set \<^verbatim>\<open>expanded\<close>. Here each takes what it reads as arguments
  and returns what it hands to \<^verbatim>\<open>setSelected\<close> or \<^verbatim>\<open>setExpanded\<close>.
\<close>

text \<open>
  \<^verbatim>\<open>getAllDescendantFiles\<close>: \<^verbatim>\<open>!node.children\<close> holds for \<^verbatim>\<open>undefined\<close> only (an empty
  array is truthy).
\<close>

fun getAllDescendantFiles :: "FileNode \<Rightarrow> string list"
  and descendantFilesOf :: "FileNode list \<Rightarrow> string list" where
  "getAllDescendantFiles (FileNode n p None) = [p]"
| "getAllDescendantFiles (FileNode n p (Some cs)) = descendantFilesOf cs"
| "descendantFilesOf [] = []"
| "descendantFilesOf (c # cs) = getAllDescendantFiles c @ descendantFilesOf cs"

definition areAllChildrenSelected :: "string list \<Rightarrow> FileNode \<Rightarrow> bool" where
  "areAllChildrenSelected selected node =
     (case children node of
        None \<Rightarrow> path node \<in> set selected
      | Some cs \<Rightarrow> list_all (\<lambda>filePath. filePath \<in> set selected) (getAllDescendantFiles node))"

text \<open>
  \<^verbatim>\<open>processNode\<close> of \<^verbatim>\<open>updateParentStates\<close> reads and mutates the array
  \<^verbatim>\<open>updatedSelected\<close>: the array is passed in and returned with the result.
  \<^verbatim>\<open>splice(indexOf(p), 1)\<close> removes the first occurrence of \<open>p\<close>.
\<close>

fun processNode :: "FileNode \<Rightarrow> string list \<Rightarrow> bool \<times> string list"
  and processNodes :: "FileNode list \<Rightarrow> string list \<Rightarrow> bool list \<times> string list" where
  "processNode (FileNode n p None) updatedSelected = (p \<in> set updatedSelected, updatedSelected)"
| "processNode (FileNode n p (Some cs)) updatedSelected =
     (case processNodes cs updatedSelected of
        (childStates, updated) \<Rightarrow>
          if list_all (\<lambda>state. state) childStates
          then (True, if p \<in> set updated then updated else updated @ [p])
          else (False, remove1 p updated))"
| "processNodes [] updatedSelected = ([], updatedSelected)"
| "processNodes (c # cs) updatedSelected =
     (case processNode c updatedSelected of
        (state, updated) \<Rightarrow>
          (case processNodes cs updated of
             (states, updated') \<Rightarrow> (state # states, updated')))"

text \<open>\<^verbatim>\<open>tree.forEach(rootNode => processNode(rootNode)); return updatedSelected\<close>\<close>

definition updateParentStates :: "FileNode list \<Rightarrow> string list \<Rightarrow> string list" where
  "updateParentStates tree newSelected = snd (processNodes tree newSelected)"

definition toggleFile :: "FileNode list \<Rightarrow> string list \<Rightarrow> string \<Rightarrow> string list" where
  "toggleFile tree selected p =
     updateParentStates tree
       (if p \<in> set selected then filter (\<lambda>f. f \<noteq> p) selected else selected @ [p])"

text \<open>\<^verbatim>\<open>[...new Set(xs)]\<close>: the elements of \<open>xs\<close> in the order of their first occurrence.\<close>

definition js_set_values :: "string list \<Rightarrow> string list" where
  "js_set_values xs = foldl (\<lambda>acc x. if x \<in> set acc then acc else acc @ [x]) [] xs"

text \<open>\<^verbatim>\<open>toggleFolder\<close> returns early for a node without children: nothing is set.\<close>

definition toggleFolder :: "string list \<Rightarrow> FileNode \<Rightarrow> string list" where
  "toggleFolder selected node =
     (case children node of
        None \<Rightarrow> selected
      | Some cs \<Rightarrow>
          if areAllChildrenSelected selected node
          then filter (\<lambda>f. f \<notin> set (getAllDescendantFiles node)) selected
          else js_set_values (selected @ getAllDescendantFiles node))"

definition toggleExpand :: "string set \<Rightarrow> string \<Rightarrow> string set" where
  "toggleExpand expanded p = (if p \<in> expanded then expanded - {p} else insert p expanded)"

text \<open>
  The state of the checkbox that \<^verbatim>\<open>renderTree\<close> draws for a node:
  \<^verbatim>\<open>isFolder ? areAllChildrenSelected(node) : selected.includes(node.path)\<close> with
  \<^verbatim>\<open>isFolder = !!node.children && node.children.length > 0\<close>.
\<close>

definition isChecked :: "string list \<Rightarrow> FileNode \<Rightarrow> bool" where
  "isChecked selected node =
     (case children node of
        None \<Rightarrow> path node \<in> set selected
      | Some cs \<Rightarrow>
          if cs \<noteq> [] then areAllChildrenSelected selected node else path node \<in> set selected)"

subsection \<open>The state of the component and its event handlers\<close>

record FileTreeState =
  tree :: "FileNode list"
  expanded :: "string set"
  selected :: "string list"

definition onToggleFile :: "FileTreeState \<Rightarrow> string \<Rightarrow> FileTreeState" where
  "onToggleFile st p = st\<lparr>selected := toggleFile (tree st) (selected st) p\<rparr>"

definition onToggleFolder :: "FileTreeState \<Rightarrow> FileNode \<Rightarrow> FileTreeState" where
  "onToggleFolder st node = st\<lparr>selected := toggleFolder (selected st) node\<rparr>"

definition onToggleExpand :: "FileTreeState \<Rightarrow> string \<Rightarrow> FileTreeState" where
  "onToggleExpand st p = st\<lparr>expanded := toggleExpand (expanded st) p\<rparr>"

subsection \<open>Nodes and paths of a tree\<close>

fun nodes_of :: "FileNode \<Rightarrow> FileNode list"
  and all_nodes :: "FileNode list \<Rightarrow> FileNode list" where
  "nodes_of (FileNode n p ch) =
     FileNode n p ch # (case ch of None \<Rightarrow> [] | Some cs \<Rightarrow> all_nodes cs)"
| "all_nodes [] = []"
| "all_nodes (c # cs) = nodes_of c @ all_nodes cs"

definition is_folder :: "FileNode \<Rightarrow> bool" where
  "is_folder node = (children node \<noteq> None)"

definition folder_paths :: "FileNode list \<Rightarrow> string list" where
  "folder_paths t = map path (filter is_folder (all_nodes t))"

definition leaf_paths :: "FileNode list \<Rightarrow> string list" where
  "leaf_paths t = map path (filter (\<lambda>n. \<not> is_folder n) (all_nodes t))"

section \<open>Notions of the specification\<close>

text \<open>
  The stored membership of the folders agrees with the membership of their descendant
  files: the path of a folder is in the selection exactly when every descendant file is.
\<close>

definition folder_consistent :: "string list \<Rightarrow> FileNode \<Rightarrow> bool" where
  "folder_consistent sel node =
     ((path node \<in> set sel) = list_all (\<lambda>f. f \<in> set sel) (getAllDescendantFiles node))"

definition consistent :: "FileNode list \<Rightarrow> string list \<Rightarrow> bool" where
  "consistent t sel = list_all (folder_consistent sel) (filter is_folder (all_nodes t))"

text \<open>A sequence of toggle operations, run from a selection by the code above.\<close>

datatype toggle_op = ToggleLeaf string | ToggleFolder FileNode

fun apply_op :: "FileNode list \<Rightarrow> string list \<Rightarrow> toggle_op \<Rightarrow> string list" where
  "apply_op t sel (ToggleLeaf p) = toggleFile t sel p"
| "apply_op t sel (ToggleFolder node) = toggleFolder sel node"

definition apply_ops :: "FileNode list \<Rightarrow> string list \<Rightarrow> toggle_op list \<Rightarrow> string list" where
  "apply_ops t sel ops = foldl (apply_op t) sel ops"

text \<open>
  The top-level segments of a path list in the order of their first occurrence.
\<close>

definition first_segments :: "string list \<Rightarrow> string list" where
  "first_segments files = js_set_values (concat (map (\<lambda>f. take 1 (path_parts f)) files))"

text \<open>The tree \<^verbatim>\<open>root/{a.txt, sub/{b.txt, c.txt}}\<close> of the specification's examples.\<close>

definition sub_node :: FileNode where
  "sub_node =
     FileNode ''sub'' ''root/sub''
       (Some [FileNode ''b.txt'' ''root/sub/b.txt'' None,
              FileNode ''c.txt'' ''root/sub/c.txt'' None])"

definition root_node :: FileNode where
  "root_node =
     FileNode ''root'' ''root'' (Some [FileNode ''a.txt'' ''root/a.txt'' None, sub_node])"

section \<open>Invariants of the tree under construction\<close>

text \<open>
  A segment as \<^verbatim>\<open>filter(Boolean)\<close> leaves it: not empty, and free of both separators.
\<close>

definition seg_ok :: "string \<Rightarrow> bool" where
  "seg_ok s = (s \<noteq> [] \<and> CHR ''/'' \<notin> set s \<and> backslash \<notin> set s)"

text \<open>The segments of a position in the tree, joined with \<^verbatim>\<open>/\<close>.\<close>

fun join_path :: "string list \<Rightarrow> string" where
  "join_path [] = []"
| "join_path [s] = s"
| "join_path (s # t # ss) = s @ ''/'' @ join_path (t # ss)"

text \<open>
  The object of the level below the segments \<open>ps\<close>: every entry is stored under its
  own name, its path joins \<open>ps\<close> and the name, and the keys of every object below are
  distinct.
\<close>

fun wf_obj :: "string list \<Rightarrow> JsObject \<Rightarrow> bool" where
  "wf_obj ps [] = True"
| "wf_obj ps ((k, RawNode n p ch) # rest) =
     (n = k \<and> seg_ok k \<and> p = join_path (ps @ [k]) \<and>
      (case ch of None \<Rightarrow> True | Some c \<Rightarrow> wf_obj (ps @ [k]) c \<and> distinct (map fst c)) \<and>
      wf_obj ps rest)"

text \<open>The same for the nodes that \<^verbatim>\<open>convert\<close> returns.\<close>

fun wf_tree :: "string list \<Rightarrow> FileNode list \<Rightarrow> bool" where
  "wf_tree ps [] = True"
| "wf_tree ps (FileNode n p ch # ns) =
     (seg_ok n \<and> p = join_path (ps @ [n]) \<and>
      (case ch of None \<Rightarrow> True | Some cs \<Rightarrow> wf_tree (ps @ [n]) cs \<and> distinct (map name cs)) \<and>
      wf_tree ps ns)"

text \<open>The position of every node, in the order of \<^const>\<open>all_nodes\<close>.\<close>

fun all_segs :: "string list \<Rightarrow> FileNode list \<Rightarrow> string list list" where
  "all_segs ps [] = []"
| "all_segs ps (FileNode n p ch # ns) =
     (ps @ [n]) # (case ch of None \<Rightarrow> [] | Some cs \<Rightarrow> all_segs (ps @ [n]) cs) @ all_segs ps ns"

text \<open>Whether the character \<open>d\<close> occurs twice in a row.\<close>

fun has_adjacent :: "char \<Rightarrow> string \<Rightarrow> bool" where
  "has_adjacent d (x # y # r) = ((x = d \<and> y = d) \<or> has_adjacent d (y # r))"
| "has_adjacent d r = False"

text \<open>
  The paths of the folders of a tree whose descendant files are all in \<open>sel\<close>: what
  \<^verbatim>\<open>updateParentStates\<close> is to store.
\<close>

definition derived_folders :: "string list \<Rightarrow> FileNode list \<Rightarrow> string list" where
  "derived_folders sel t =
     map path (filter (\<lambda>f. is_folder f \<and> list_all (\<lambda>x. x \<in> set sel) (getAllDescendantFiles f))
                 (all_nodes t))"

section \<open>Evaluation on the examples\<close>

lemma buildTree_example:
  "buildTree [''root/a.txt'', ''root/sub/b.txt'', ''root/sub/c.txt''] = Inr [root_node]"
  unfolding root_node_def sub_node_def by code_simp

text \<open>
  C6. For the tree built from \<^verbatim>\<open>root/a.txt\<close>, \<^verbatim>\<open>root/sub/b.txt\<close>, \<^verbatim>\<open>root/sub/c.txt\<close>, one
  \<^verbatim>\<open>toggleFolder\<close> of the node \<^verbatim>\<open>sub\<close> from the empty selection selects exactly
  \<^verbatim>\<open>root/sub/b.txt\<close> and \<^verbatim>\<open>root/sub/c.txt\<close>; the node \<^verbatim>\<open>sub\<close> is then reported as selected,
  and the node \<^verbatim>\<open>root\<close> is not.
\<close>

theorem toggleFolder_cascade_example:
  "buildTree [''root/a.txt'', ''root/sub/b.txt'', ''root/sub/c.txt''] = Inr [root_node]
   \<and> children root_node = Some [FileNode ''a.txt'' ''root/a.txt'' None, sub_node]
   \<and> set (toggleFolder [] sub_node) = {''root/sub/b.txt'', ''root/sub/c.txt''}
   \<and> areAllChildrenSelected (toggleFolder [] sub_node) sub_node
   \<and> \<not> areAllChildrenSelected (toggleFolder [] sub_node) root_node
   \<and> isChecked (toggleFolder [] sub_node) sub_node
   \<and> \<not> isChecked (toggleFolder [] sub_node) root_node"
  unfolding root_node_def sub_node_def by code_simp

text \<open>
  C1, evaluated. \<^verbatim>\<open>toggleFolder\<close> does not run \<^verbatim>\<open>updateParentStates\<close>. After
  \<^verbatim>\<open>toggleFolder\<close> of \<^verbatim>\<open>sub\<close> from the empty selection every file of \<^verbatim>\<open>sub\<close> is selected
  and the path of \<^verbatim>\<open>sub\<close> is not: the stored folder membership disagrees with the files.
  And after the three files were selected one by one with \<^verbatim>\<open>toggleFile\<close> (which stores
  \<^verbatim>\<open>root/sub\<close> and \<^verbatim>\<open>root\<close>), \<^verbatim>\<open>toggleFolder\<close> of \<^verbatim>\<open>root\<close> removes the files and leaves
  both folder paths in the selection.
\<close>

theorem toggleFolder_breaks_consistency:
  "buildTree [''root/a.txt'', ''root/sub/b.txt'', ''root/sub/c.txt''] = Inr [root_node]
   \<and> apply_ops [root_node] [] [ToggleFolder sub_node] = [''root/sub/b.txt'', ''root/sub/c.txt'']
   \<and> \<not> consistent [root_node] (apply_ops [root_node] [] [ToggleFolder sub_node])
   \<and> apply_ops [root_node] []
        [ToggleLeaf ''root/a.txt'', ToggleLeaf ''root/sub/b.txt'', ToggleLeaf ''root/sub/c.txt'']
       = [''root/a.txt'', ''root/sub/b.txt'', ''root/sub/c.txt'', ''root/sub'', ''root'']
   \<and> apply_ops [root_node] []
        [ToggleLeaf ''root/a.txt'', ToggleLeaf ''root/sub/b.txt'', ToggleLeaf ''root/sub/c.txt'',
         ToggleFolder root_node]
       = [''root/sub'', ''root'']
   \<and> \<not> consistent [root_node] [''root/sub'', ''root'']"
  unfolding root_node_def sub_node_def by code_simp

text \<open>
  C2, refuted as stated: with one of the two files of \<^verbatim>\<open>sub\<close> selected, the first
  \<^verbatim>\<open>toggleFolder\<close> selects both and the second removes both.
\<close>

theorem toggleFolder_twice_counterexample:
  "buildTree [''root/a.txt'', ''root/sub/b.txt'', ''root/sub/c.txt''] = Inr [root_node]
   \<and> children root_node = Some [FileNode ''a.txt'' ''root/a.txt'' None, sub_node]
   \<and> toggleFolder [''root/sub/b.txt''] sub_node = [''root/sub/b.txt'', ''root/sub/c.txt'']
   \<and> toggleFolder (toggleFolder [''root/sub/b.txt''] sub_node) sub_node = []
   \<and> set (toggleFolder (toggleFolder [''root/sub/b.txt''] sub_node) sub_node)
       \<noteq> set [''root/sub/b.txt'']"
  unfolding root_node_def sub_node_def by code_simp

text \<open>
  C3, evaluated. The listing of an archive with a directory entry: \<^verbatim>\<open>docs/\<close> creates the
  node \<^verbatim>\<open>docs\<close> without children, and \<^verbatim>\<open>docs/readme.md\<close> is then written to an object
  that the tree does not hold. The node stays a leaf and the file is not in the tree.
  In the other order the node is a folder with the file as its child.
\<close>

theorem buildTree_leaf_not_reclassified:
  "buildTree [''docs/'', ''docs/readme.md''] = Inr [FileNode ''docs'' ''docs'' None]
   \<and> buildTree [''docs/readme.md'', ''docs/'']
       = Inr [FileNode ''docs'' ''docs'' (Some [FileNode ''readme.md'' ''docs/readme.md'' None])]"
  by code_simp

text \<open>
  C4, refuted as stated: \<^verbatim>\<open>toggleFile\<close> of a path that no node has adds the path to the
  selection.
\<close>

theorem toggleFile_absent_path_counterexample:
  "buildTree [''a.txt''] = Inr [FileNode ''a.txt'' ''a.txt'' None]
   \<and> toggleFile [FileNode ''a.txt'' ''a.txt'' None] [] ''ghost.txt'' = [''ghost.txt'']
   \<and> set (toggleFile [FileNode ''a.txt'' ''a.txt'' None] [] ''ghost.txt'') \<noteq> set []"
  by code_simp

text \<open>
  C5, evaluated. The segments \<^verbatim>\<open>src\<close> and \<^verbatim>\<open>2024\<close> occur in this order, and the tree lists
  \<^verbatim>\<open>2024\<close> first: a plain object enumerates its array-index keys before the others.
\<close>

theorem buildTree_digit_names_reordered:
  "buildTree [''src/main.c'', ''2024/notes.txt'']
     = Inr [FileNode ''2024'' ''2024'' (Some [FileNode ''notes.txt'' ''2024/notes.txt'' None]),
            FileNode ''src'' ''src'' (Some [FileNode ''main.c'' ''src/main.c'' None])]
   \<and> first_segments [''src/main.c'', ''2024/notes.txt''] = [''src'', ''2024'']
   \<and> buildTree [''10'', ''9'']
     = Inr [FileNode ''9'' ''9'' None, FileNode ''10'' ''10'' None]"
  by code_simp

section \<open>Selection and expansion are independent\<close>

text \<open>
  C7. \<^verbatim>\<open>toggleFile\<close> and \<^verbatim>\<open>toggleFolder\<close> leave the set \<^verbatim>\<open>expanded\<close> (and the tree) as they
  are, and \<^verbatim>\<open>toggleExpand\<close>, which expands a collapsed folder and collapses an expanded
  one, leaves the selection (and the tree) as it is.
\<close>

theorem selection_expansion_independent:
  "expanded (onToggleFile st p) = expanded st
   \<and> expanded (onToggleFolder st node) = expanded st
   \<and> selected (onToggleExpand st p) = selected st
   \<and> tree (onToggleFile st p) = tree st
   \<and> tree (onToggleFolder st node) = tree st
   \<and> tree (onToggleExpand st p) = tree st"
  by (simp add: onToggleFile_def onToggleFolder_def onToggleExpand_def)

section \<open>Splitting and joining paths\<close>

lemma split_on_no_sep: "d \<notin> set a \<Longrightarrow> split_on d a = [a]"
  by (induction a) auto

lemma split_on_append: "d \<notin> set a \<Longrightarrow> split_on d (a @ d # b) = a # split_on d b"
  by (induction a) auto

lemma split_on_pieces: "s \<in> set (split_on d xs) \<Longrightarrow> d \<notin> set s \<and> set s \<subseteq> set xs"
proof (induction xs arbitrary: s)
  case Nil
  then show ?case by simp
next
  case (Cons c cs)
  show ?case
  proof (cases "c = d")
    case True
    with Cons show ?thesis by auto
  next
    case False
    with Cons show ?thesis
      by (cases "split_on d cs") (auto, fastforce+)
  qed
qed

lemma path_parts_ok: "list_all seg_ok (path_parts f)"
proof -
  have "seg_ok s" if "s \<in> set (path_parts f)" for s
  proof -
    let ?g = "map (\<lambda>c. if c = backslash then CHR ''/'' else c) f"
    from that have s: "s \<in> set (split_on CHR ''/'' ?g)" and ne: "s \<noteq> []"
      by (auto simp: path_parts_def)
    from split_on_pieces[OF s] have a: "CHR ''/'' \<notin> set s" and b: "set s \<subseteq> set ?g" by auto
    have "backslash \<notin> set ?g" by (auto simp: backslash_def)
    with a b ne show ?thesis by (auto simp: seg_ok_def)
  qed
  then show ?thesis by (simp add: list_all_iff)
qed

lemma join_path_snoc:
  "list_all seg_ok ps \<Longrightarrow> ps \<noteq> [] \<Longrightarrow> join_path (ps @ [k]) = join_path ps @ ''/'' @ k"
  by (induction ps rule: join_path.induct) auto

lemma join_path_nonempty: "list_all seg_ok ps \<Longrightarrow> ps \<noteq> [] \<Longrightarrow> join_path ps \<noteq> []"
  by (induction ps rule: join_path.induct) (auto simp: seg_ok_def)

lemma extend_join: "list_all seg_ok ps \<Longrightarrow> extend_path (join_path ps) k = join_path (ps @ [k])"
  by (cases "ps = []") (auto simp: extend_path_def join_path_snoc join_path_nonempty)

lemma split_join: "list_all seg_ok xs \<Longrightarrow> xs \<noteq> [] \<Longrightarrow> split_on CHR ''/'' (join_path xs) = xs"
  by (induction xs rule: join_path.induct) (auto simp: seg_ok_def split_on_no_sep split_on_append)

lemma backslash_join: "list_all seg_ok xs \<Longrightarrow> backslash \<notin> set (join_path xs)"
  by (induction xs rule: join_path.induct) (auto simp: seg_ok_def backslash_def)

lemma split_on_nonempty: "split_on d s \<noteq> []"
  by (induction s) (auto split: list.splits)

lemma split_on_hd_empty: "(hd (split_on d s) = []) = (s = [] \<or> hd s = d)"
  by (cases s) (auto split: list.splits)

lemma split_on_tl_empty:
  "([] \<in> set (tl (split_on d s))) = (s \<noteq> [] \<and> (last s = d \<or> has_adjacent d s))"
proof (induction s)
  case Nil
  show ?case by simp
next
  case (Cons c cs)
  show ?case
  proof (cases "c = d")
    case True
    have e: "([] \<in> set (split_on d cs)) = (hd (split_on d cs) = [] \<or> [] \<in> set (tl (split_on d cs)))"
      using split_on_nonempty[of d cs] by (cases "split_on d cs") auto
    have l: "([] \<in> set (tl (split_on d (c # cs)))) =
             (cs = [] \<or> hd cs = d \<or> (cs \<noteq> [] \<and> (last cs = d \<or> has_adjacent d cs)))"
      using True Cons e by (simp add: split_on_hd_empty)
    have r: "(c # cs \<noteq> [] \<and> (last (c # cs) = d \<or> has_adjacent d (c # cs))) =
             (cs = [] \<or> hd cs = d \<or> (cs \<noteq> [] \<and> (last cs = d \<or> has_adjacent d cs)))"
      using True by (cases cs) auto
    show ?thesis by (simp only: l r)
  next
    case False
    with Cons show ?thesis
      using split_on_nonempty[of d cs] by (cases cs; cases "split_on d cs") (auto split: list.splits)
  qed
qed

lemma no_empty_piece_iff:
  "([] \<notin> set (split_on d s)) =
     (s \<noteq> [] \<and> hd s \<noteq> d \<and> last s \<noteq> d \<and> \<not> has_adjacent d s)"
proof -
  have "([] \<in> set (split_on d s)) = (hd (split_on d s) = [] \<or> [] \<in> set (tl (split_on d s)))"
    using split_on_nonempty[of d s] by (cases "split_on d s") auto
  then show ?thesis by (auto simp: split_on_hd_empty split_on_tl_empty)
qed

section \<open>Where buildTree returns\<close>

text \<open>
  \<^verbatim>\<open>buildTree\<close> returns a tree for every list without a segment named like a property
  of \<^verbatim>\<open>Object.prototype\<close>; on such a segment it throws.
\<close>

lemma walk_parts_total:
  "list_all (\<lambda>part. part \<notin> set object_prototype_keys) parts \<Longrightarrow>
   \<exists>cur'. walk_parts cur cp parts = Inr cur'"
proof (induction parts arbitrary: cur cp)
  case Nil
  show ?case by simp
next
  case (Cons part rest)
  from Cons.prems have np: "part \<notin> set object_prototype_keys"
    and nr: "list_all (\<lambda>part. part \<notin> set object_prototype_keys) rest" by simp_all
  from np have ni: "js_get cur part \<noteq> Inherited"
    by (auto simp: js_get_def split: option.splits)
  from Cons.IH[OF nr] have ih: "\<exists>c'. walk_parts c (extend_path cp part) rest = Inr c'" for c
    by blast
  show ?case
  proof (cases "js_get cur part")
    case Inherited
    with ni show ?thesis by simp
  next
    case (Own e)
    show ?thesis
    proof (cases "rchildren e")
      case None
      with Own ih[of "[]"] show ?thesis by auto
    next
      case (Some ch)
      with Own ih[of ch] show ?thesis by auto
    qed
  next
    case Undefined
    with ih[of "[]"] show ?thesis by auto
  qed
qed

lemma buildTree_total:
  assumes "list_all (\<lambda>f. list_all (\<lambda>part. part \<notin> set object_prototype_keys) (path_parts f)) files"
  shows "\<exists>t. buildTree files = Inr t"
proof -
  have "\<exists>root'. add_files root files = Inr root'" for root
    using assms
  proof (induction files arbitrary: root)
    case Nil
    show ?case by simp
  next
    case (Cons f files)
    from Cons.prems have a: "list_all (\<lambda>part. part \<notin> set object_prototype_keys) (path_parts f)"
      and b: "list_all (\<lambda>f. list_all (\<lambda>part. part \<notin> set object_prototype_keys) (path_parts f)) files"
      by simp_all
    from walk_parts_total[OF a] obtain r1 where "walk_parts root [] (path_parts f) = Inr r1"
      by blast
    with Cons.IH[OF b] show ?case by auto
  qed
  then obtain r where "add_files [] files = Inr r" by blast
  then show ?thesis by (simp add: buildTree_def)
qed

lemma buildTree_prototype_key_example:
  "buildTree [''src/constructor''] = Inl TypeError"
  by code_simp

section \<open>buildTree keeps the invariant\<close>

lemma wf_obj_iff: "wf_obj ps c = (\<forall>x \<in> set c. wf_obj ps [x])"
proof (induction ps c rule: wf_obj.induct)
  case (1 ps)
  show ?case by simp
next
  case (2 ps k n p ch rest)
  then show ?case by (cases ch) auto
qed

lemma set_js_add: "set (js_add c k e) = insert (k, e) (set c)"
  by (induction c k e rule: js_add.induct) auto

lemma set_js_replace:
  "k \<in> fst ` set c \<Longrightarrow> set (js_replace c k e) \<subseteq> insert (k, e) (set c)"
  by (induction c k e rule: js_replace.induct) auto

lemma keys_js_replace: "map fst (js_replace c k e) = map fst c"
  by (induction c k e rule: js_replace.induct) auto

lemma distinct_js_add:
  "distinct (map fst c) \<Longrightarrow> k \<notin> fst ` set c \<Longrightarrow> distinct (map fst (js_add c k e))"
  by (induction c k e rule: js_add.induct) (auto simp: set_js_add)

lemma wf_js_add: "wf_obj ps c \<Longrightarrow> wf_obj ps [(k, e)] \<Longrightarrow> wf_obj ps (js_add c k e)"
  using wf_obj_iff[of ps c] wf_obj_iff[of ps "js_add c k e"] by (auto simp: set_js_add)

lemma wf_obj_Cons: "wf_obj ps (x # xs) = (wf_obj ps [x] \<and> wf_obj ps xs)"
  using wf_obj_iff[of ps "x # xs"] wf_obj_iff[of ps xs] by auto

lemma wf_js_replace:
  "wf_obj ps c \<Longrightarrow> wf_obj ps [(k, e)] \<Longrightarrow> wf_obj ps (js_replace c k e)"
proof (induction c k e rule: js_replace.induct)
  case (1 k e)
  show ?case by simp
next
  case (2 k' e' rest k e)
  from "2.prems"(1) have h: "wf_obj ps [(k', e')]" and t: "wf_obj ps rest"
    using wf_obj_Cons[of ps "(k', e')" rest] by simp_all
  show ?case
  proof (cases "k' = k")
    case True
    then show ?thesis using "2.prems"(2) t wf_obj_Cons[of ps "(k, e)" rest] by simp
  next
    case False
    then show ?thesis
      using "2.IH"[OF False t "2.prems"(2)] h wf_obj_Cons[of ps "(k', e')" "js_replace rest k e"]
      by simp
  qed
qed

lemma js_get_Own: "js_get c k = Own e \<Longrightarrow> (k, e) \<in> set c"
  by (auto simp: js_get_def split: option.splits if_splits dest: map_of_SomeD)

lemma js_get_Undefined: "js_get c k = Undefined \<Longrightarrow> k \<notin> fst ` set c"
  by (auto simp: js_get_def map_of_eq_None_iff split: option.splits if_splits)

lemma walk_parts_wf:
  "wf_obj ps cur \<Longrightarrow> distinct (map fst cur) \<Longrightarrow> list_all seg_ok ps \<Longrightarrow>
   list_all seg_ok parts \<Longrightarrow> walk_parts cur (join_path ps) parts = Inr cur' \<Longrightarrow>
   wf_obj ps cur' \<and> distinct (map fst cur')"
proof (induction parts arbitrary: ps cur cur')
  case Nil
  then show ?case by simp
next
  case (Cons part rest)
  from Cons.prems have okp: "seg_ok part" and okr: "list_all seg_ok rest" by simp_all
  have okps: "list_all seg_ok (ps @ [part])" using Cons.prems(3) okp by simp
  have ext: "extend_path (join_path ps) part = join_path (ps @ [part])"
    using Cons.prems(3) by (rule extend_join)
  show ?case
  proof (cases "js_get cur part")
    case Inherited
    with Cons.prems(5) show ?thesis by simp
  next
    case (Own e)
    then have mem: "(part, e) \<in> set cur" by (rule js_get_Own)
    with Cons.prems(1) have wfe: "wf_obj ps [(part, e)]" using wf_obj_iff[of ps cur] by blast
    show ?thesis
    proof (cases "rchildren e")
      case None
      with Own Cons.prems show ?thesis by (auto split: sum.splits)
    next
      case (Some ch)
      from Own Some Cons.prems(5) ext obtain ch' where
        w: "walk_parts ch (join_path (ps @ [part])) rest = Inr ch'" and
        c: "cur' = js_replace cur part (RawNode (rname e) (rpath e) (Some ch'))"
        by (auto split: sum.splits)
      from wfe Some have wch: "wf_obj (ps @ [part]) ch" "distinct (map fst ch)"
        and ne: "rname e = part" "rpath e = join_path (ps @ [part])"
        by (cases e; simp)+
      from Cons.IH[OF wch okps okr w] have "wf_obj (ps @ [part]) ch'" "distinct (map fst ch')"
        by simp_all
      then have "wf_obj ps [(part, RawNode (rname e) (rpath e) (Some ch'))]"
        using ne okp by simp
      with Cons.prems(1,2) c show ?thesis
        by (simp add: wf_js_replace keys_js_replace)
    qed
  next
    case Undefined
    then have fresh: "part \<notin> fst ` set cur" by (rule js_get_Undefined)
    show ?thesis
    proof (cases "rest = []")
      case True
      with Undefined Cons.prems(5) ext
      have c: "cur' = js_add cur part (RawNode part (join_path (ps @ [part])) None)" by simp
      have "wf_obj ps [(part, RawNode part (join_path (ps @ [part])) None)]" using okp by simp
      with Cons.prems(1,2) fresh c show ?thesis
        by (simp add: wf_js_add distinct_js_add)
    next
      case False
      with Undefined Cons.prems(5) ext obtain ch' where
        w: "walk_parts [] (join_path (ps @ [part])) rest = Inr ch'" and
        c: "cur' = js_add cur part (RawNode part (join_path (ps @ [part])) (Some ch'))"
        by (auto split: sum.splits)
      have "wf_obj (ps @ [part]) ch' \<and> distinct (map fst ch')"
        by (rule Cons.IH[OF _ _ okps okr w]) simp_all
      then have "wf_obj ps [(part, RawNode part (join_path (ps @ [part])) (Some ch'))]"
        using okp by simp
      with Cons.prems(1,2) fresh c show ?thesis
        by (simp add: wf_js_add distinct_js_add)
    qed
  qed
qed

lemma add_files_wf:
  "wf_obj [] root \<Longrightarrow> distinct (map fst root) \<Longrightarrow> add_files root files = Inr root' \<Longrightarrow>
   wf_obj [] root' \<and> distinct (map fst root')"
proof (induction files arbitrary: root)
  case Nil
  then show ?case by simp
next
  case (Cons f files)
  show ?case
  proof (cases "f = []")
    case True
    with Cons show ?thesis by simp
  next
    case False
    with Cons.prems(3) obtain r1 where
      w: "walk_parts root (join_path []) (path_parts f) = Inr r1" and a: "add_files r1 files = Inr root'"
      by (auto split: sum.splits)
    from walk_parts_wf[OF Cons.prems(1,2) _ path_parts_ok w]
    have "wf_obj [] r1" "distinct (map fst r1)" by simp_all
    from Cons.IH[OF this a] show ?thesis .
  qed
qed

lemma convert_names: "wf_obj ps c \<Longrightarrow> map name (convert c) = map fst c"
proof (induction ps c rule: wf_obj.induct)
  case (1 ps)
  show ?case by simp
next
  case (2 ps k n p ch rest)
  then show ?case by simp
qed

lemma convert_wf: "wf_obj ps c \<Longrightarrow> wf_tree ps (convert c)"
proof (induction ps c rule: wf_obj.induct)
  case (1 ps)
  show ?case by simp
next
  case (2 ps k n p ch rest)
  then show ?case by (cases ch) (auto simp: convert_names)
qed

lemma buildTree_wf:
  "buildTree files = Inr t \<Longrightarrow> wf_tree [] t \<and> distinct (map name t)"
proof -
  assume "buildTree files = Inr t"
  then obtain root where a: "add_files [] files = Inr root" and t: "t = convert root"
    by (auto simp: buildTree_def split: sum.splits)
  from add_files_wf[OF _ _ a] have "wf_obj [] root" "distinct (map fst root)" by simp_all
  with t show ?thesis by (simp add: convert_wf convert_names)
qed

section \<open>Paths of the built tree\<close>

lemma all_nodes_Cons:
  "all_nodes (FileNode n p ch # ns) =
     FileNode n p ch # (case ch of None \<Rightarrow> [] | Some cs \<Rightarrow> all_nodes cs) @ all_nodes ns"
  by simp

lemma paths_all_segs: "wf_tree ps t \<Longrightarrow> map path (all_nodes t) = map join_path (all_segs ps t)"
proof (induction ps t rule: wf_tree.induct)
  case (1 ps)
  show ?case by simp
next
  case (2 ps n p ch ns)
  then show ?case by (cases ch) (simp_all del: all_nodes.simps nodes_of.simps add: all_nodes_Cons)
qed

lemma all_segs_shape:
  "wf_tree ps t \<Longrightarrow> list_all seg_ok ps \<Longrightarrow> ss \<in> set (all_segs ps t) \<Longrightarrow>
   list_all seg_ok ss \<and> (\<exists>k rest. ss = ps @ k # rest \<and> k \<in> set (map name t))"
proof (induction ps t arbitrary: ss rule: wf_tree.induct)
  case (1 ps)
  then show ?case by simp
next
  case (2 ps n p ch ns)
  from "2.prems"(1) have okn: "seg_ok n" and wns: "wf_tree ps ns" by simp_all
  from "2.prems"(3) consider
      (self) "ss = ps @ [n]"
    | (child) cs where "ch = Some cs" "ss \<in> set (all_segs (ps @ [n]) cs)"
    | (sib) "ss \<in> set (all_segs ps ns)"
    by (cases ch) auto
  then show ?case
  proof cases
    case self
    then show ?thesis using okn "2.prems"(2) by simp
  next
    case child
    from "2.prems"(1) child(1) have wcs: "wf_tree (ps @ [n]) cs" by simp
    have okps: "list_all seg_ok (ps @ [n])" using okn "2.prems"(2) by simp
    from "2.IH"(1)[OF child(1) wcs okps child(2)]
    obtain k rest where "list_all seg_ok ss" "ss = (ps @ [n]) @ k # rest" by blast
    then show ?thesis by auto
  next
    case sib
    from "2.IH"(2)[OF wns "2.prems"(2) sib] show ?thesis by auto
  qed
qed

lemma all_segs_distinct:
  "wf_tree ps t \<Longrightarrow> list_all seg_ok ps \<Longrightarrow> distinct (map name t) \<Longrightarrow> distinct (all_segs ps t)"
proof (induction ps t rule: wf_tree.induct)
  case (1 ps)
  show ?case by simp
next
  case (2 ps n p ch ns)
  from "2.prems"(1) have okn: "seg_ok n" and wns: "wf_tree ps ns" by simp_all
  have okps: "list_all seg_ok (ps @ [n])" using okn "2.prems"(2) by simp
  from "2.prems"(3) have dn: "n \<notin> set (map name ns)" and dns: "distinct (map name ns)" by simp_all
  have sib: "distinct (all_segs ps ns)" by (rule "2.IH"(2)[OF wns "2.prems"(2) dns])
  have sib_shape: "\<exists>k rest. ss = ps @ k # rest \<and> k \<in> set (map name ns)"
    if "ss \<in> set (all_segs ps ns)" for ss
    using all_segs_shape[OF wns "2.prems"(2) that] by blast
  have self_sib: "ps @ [n] \<notin> set (all_segs ps ns)"
  proof
    assume "ps @ [n] \<in> set (all_segs ps ns)"
    from sib_shape[OF this] dn show False by auto
  qed
  show ?case
  proof (cases ch)
    case None
    with sib self_sib show ?thesis by simp
  next
    case (Some cs)
    from "2.prems"(1) Some have wcs: "wf_tree (ps @ [n]) cs" and dcs: "distinct (map name cs)"
      by simp_all
    have ch_d: "distinct (all_segs (ps @ [n]) cs)" by (rule "2.IH"(1)[OF Some wcs okps dcs])
    have ch_shape: "\<exists>k rest. ss = (ps @ [n]) @ k # rest"
      if "ss \<in> set (all_segs (ps @ [n]) cs)" for ss
      using all_segs_shape[OF wcs okps that] by blast
    have self_ch: "ps @ [n] \<notin> set (all_segs (ps @ [n]) cs)"
    proof
      assume "ps @ [n] \<in> set (all_segs (ps @ [n]) cs)"
      from ch_shape[OF this] show False by auto
    qed
    have ch_sib: "set (all_segs (ps @ [n]) cs) \<inter> set (all_segs ps ns) = {}"
    proof (rule ccontr)
      assume "set (all_segs (ps @ [n]) cs) \<inter> set (all_segs ps ns) \<noteq> {}"
      then obtain ss where a: "ss \<in> set (all_segs (ps @ [n]) cs)" and b: "ss \<in> set (all_segs ps ns)"
        by blast
      from ch_shape[OF a] sib_shape[OF b] dn show False by auto
    qed
    from Some sib self_sib ch_d self_ch ch_sib show ?thesis by simp
  qed
qed

lemma join_path_inj:
  "list_all seg_ok xs \<Longrightarrow> xs \<noteq> [] \<Longrightarrow> list_all seg_ok ys \<Longrightarrow> ys \<noteq> [] \<Longrightarrow>
   join_path xs = join_path ys \<Longrightarrow> xs = ys"
proof -
  assume x: "list_all seg_ok xs" "xs \<noteq> []" and y: "list_all seg_ok ys" "ys \<noteq> []"
    and e: "join_path xs = join_path ys"
  have "xs = split_on CHR ''/'' (join_path xs)" using split_join[OF x] by simp
  also have "\<dots> = split_on CHR ''/'' (join_path ys)" by (simp only: e)
  also have "\<dots> = ys" by (rule split_join[OF y])
  finally show ?thesis .
qed

lemma wf_tree_distinct_paths:
  assumes "wf_tree ps t" "list_all seg_ok ps" "distinct (map name t)"
  shows "distinct (map path (all_nodes t))"
proof -
  have "inj_on join_path (set (all_segs ps t))"
  proof (rule inj_onI)
    fix xs ys
    assume x: "xs \<in> set (all_segs ps t)" and y: "ys \<in> set (all_segs ps t)"
      and e: "join_path xs = join_path ys"
    from all_segs_shape[OF assms(1,2) x] have "list_all seg_ok xs" "xs \<noteq> []" by auto
    moreover from all_segs_shape[OF assms(1,2) y] have "list_all seg_ok ys" "ys \<noteq> []" by auto
    ultimately show "xs = ys" using e by (rule join_path_inj)
  qed
  with all_segs_distinct[OF assms] have "distinct (map join_path (all_segs ps t))"
    by (simp add: distinct_map)
  then show ?thesis by (simp add: paths_all_segs[OF assms(1)])
qed

lemma buildTree_distinct_paths:
  "buildTree files = Inr t \<Longrightarrow> distinct (map path (all_nodes t))"
  using buildTree_wf[of files t] wf_tree_distinct_paths[of "[]" t] by simp

lemma wf_tree_path_segments:
  assumes "wf_tree ps t" "list_all seg_ok ps" "m \<in> set (all_nodes t)"
  shows "backslash \<notin> set (path m) \<and> [] \<notin> set (split_on CHR ''/'' (path m))"
proof -
  from assms(3) have "path m \<in> set (map path (all_nodes t))" by simp
  then obtain ss where s: "ss \<in> set (all_segs ps t)" and p: "path m = join_path ss"
    unfolding paths_all_segs[OF assms(1)] by auto
  from all_segs_shape[OF assms(1,2) s] have ok: "list_all seg_ok ss" and ne: "ss \<noteq> []" by auto
  have "[] \<notin> set ss" using ok by (auto simp: list_all_iff seg_ok_def)
  then show ?thesis using p ok ne by (simp add: backslash_join split_join)
qed

lemma wf_tree_child_paths:
  "wf_tree ps t \<Longrightarrow> list_all seg_ok ps \<Longrightarrow>
   list_all (\<lambda>n. case children n of None \<Rightarrow> True
                 | Some cs \<Rightarrow> list_all (\<lambda>c. path c = path n @ ''/'' @ name c) cs) (all_nodes t)
   \<and> list_all (\<lambda>c. path c = join_path (ps @ [name c])) t"
proof (induction ps t rule: wf_tree.induct)
  case (1 ps)
  show ?case by simp
next
  case (2 ps n p ch ns)
  from "2.prems"(1) have okn: "seg_ok n" and wns: "wf_tree ps ns" and p: "p = join_path (ps @ [n])"
    by simp_all
  have okps: "list_all seg_ok (ps @ [n])" using okn "2.prems"(2) by simp
  note sib = "2.IH"(2)[OF wns "2.prems"(2)]
  show ?case
  proof (cases ch)
    case None
    with sib p show ?thesis by simp
  next
    case (Some cs)
    from "2.prems"(1) Some have wcs: "wf_tree (ps @ [n]) cs" by simp
    note kid = "2.IH"(1)[OF Some wcs okps]
    have "list_all (\<lambda>c. path c = p @ ''/'' @ name c) cs"
      using kid p join_path_snoc[OF okps] by (simp add: list_all_iff)
    with kid sib p Some show ?thesis by simp
  qed
qed

section \<open>Lemmas on the selection\<close>

lemma convert_nonempty: "c \<noteq> [] \<Longrightarrow> convert c \<noteq> []"
  by (cases c) auto

lemma convert_children_nonempty:
  "list_all (\<lambda>n. children n \<noteq> Some []) (all_nodes (convert c))"
  "list_all (\<lambda>n. children n \<noteq> Some []) (nodes_of (convert_entry e))"
proof (induction c and e rule: convert_convert_entry.induct)
  case 1
  show ?case by simp
next
  case (2 k entry rest)
  then show ?case by simp
next
  case (3 n p ch)
  then show ?case by (cases ch) (auto simp: convert_nonempty)
qed

lemma set_js_set_values_aux:
  "set (foldl (\<lambda>acc x. if x \<in> set acc then acc else acc @ [x]) acc xs) = set acc \<union> set xs"
  by (induction xs arbitrary: acc) auto

lemma set_js_set_values: "set (js_set_values xs) = set xs"
  by (simp add: js_set_values_def set_js_set_values_aux)

text \<open>
  C2, amended. Two \<^verbatim>\<open>toggleFolder\<close> of the same node give back the members of the
  selection when it holds all of the node's descendant files or none of them; when it
  holds some and not all, the two toggles leave the selection without any of them.
\<close>

theorem toggleFolder_twice:
  "set (toggleFolder (toggleFolder sel node) node) =
     (if set (getAllDescendantFiles node) \<subseteq> set sel
         \<or> set (getAllDescendantFiles node) \<inter> set sel = {}
      then set sel else set sel - set (getAllDescendantFiles node))"
proof (cases "children node")
  case None
  then show ?thesis by (cases node) (auto simp: toggleFolder_def)
next
  case (Some cs)
  let ?D = "set (getAllDescendantFiles node)"
  have sel: "areAllChildrenSelected s node = (?D \<subseteq> set s)" for s
    using Some by (auto simp: areAllChildrenSelected_def list_all_iff)
  show ?thesis
  proof (cases "?D \<subseteq> set sel")
    case True
    then show ?thesis
      using Some by (auto simp: toggleFolder_def sel set_js_set_values)
  next
    case False
    then show ?thesis
      using Some by (auto simp: toggleFolder_def sel set_js_set_values)
  qed
qed

lemma all_nodes_append: "all_nodes (xs @ ys) = all_nodes xs @ all_nodes ys"
  by (induction xs) auto

lemma folder_paths_simps:
  "folder_paths [] = []"
  "folder_paths (FileNode n p None # cs) = folder_paths cs"
  "folder_paths (FileNode n p (Some ds) # cs) = p # folder_paths ds @ folder_paths cs"
  by (simp_all add: folder_paths_def is_folder_def)

lemma folder_paths_Cons: "folder_paths (c # cs) = folder_paths [c] @ folder_paths cs"
  by (simp add: folder_paths_def)

lemma processNode_frame:
  "q \<notin> set (folder_paths [node]) \<Longrightarrow> (q \<in> set (snd (processNode node us))) = (q \<in> set us)"
  "q \<notin> set (folder_paths nodes) \<Longrightarrow> (q \<in> set (snd (processNodes nodes us))) = (q \<in> set us)"
proof (induction node us and nodes us rule: processNode_processNodes.induct)
  case (1 n p us)
  show ?case by simp
next
  case (2 n p cs us)
  then show ?case
    by (auto simp: folder_paths_simps split: prod.splits)
next
  case (3 us)
  show ?case by simp
next
  case (4 c cs us)
  from "4.prems" have a: "q \<notin> set (folder_paths [c])" and b: "q \<notin> set (folder_paths cs)"
    by (simp_all add: folder_paths_Cons[of c cs])
  obtain st u1 where p1: "processNode c us = (st, u1)" by (cases "processNode c us")
  obtain sts u2 where p2: "processNodes cs u1 = (sts, u2)" by (cases "processNodes cs u1")
  have "(q \<in> set u1) = (q \<in> set us)" using "4.IH"(1)[OF a] p1 by simp
  moreover have "(q \<in> set u2) = (q \<in> set u1)" using "4.IH"(2)[OF p1[symmetric] b] p2 by simp
  ultimately show ?case using p1 p2 by simp
qed

lemma updateParentStates_frame:
  "q \<notin> set (folder_paths t) \<Longrightarrow> (q \<in> set (updateParentStates t us)) = (q \<in> set us)"
  by (simp add: updateParentStates_def processNode_frame)

lemma folder_paths_subset: "set (folder_paths t) \<subseteq> set (map path (all_nodes t))"
  by (auto simp: folder_paths_def)

theorem toggleFolder_twice_witness:
  "set (toggleFolder (toggleFolder [''root/a.txt''] sub_node) sub_node) = set [''root/a.txt'']
   \<and> set (toggleFolder (toggleFolder [''root/sub/b.txt''] sub_node) sub_node)
       = set [''root/sub/b.txt''] - set (getAllDescendantFiles sub_node)"
  using toggleFolder_twice[of "[''root/a.txt'']" sub_node]
        toggleFolder_twice[of "[''root/sub/b.txt'']" sub_node]
  by (simp add: sub_node_def)

section \<open>Order of the top-level nodes\<close>

text \<open>
  Where no top-level segment is an array index, the top-level nodes stand in the order
  in which their segments first occur in the list.
\<close>

lemma keys_js_add_plain: "\<not> is_array_index k \<Longrightarrow> map fst (js_add c k e) = map fst c @ [k]"
  by (induction c k e rule: js_add.induct) (auto simp: key_before_def)

lemma walk_parts_keys:
  assumes "walk_parts cur cp (part # rest) = Inr cur'" "\<not> is_array_index part"
  shows "map fst cur' = (if part \<in> set (map fst cur) then map fst cur else map fst cur @ [part])"
proof (cases "js_get cur part")
  case Inherited
  with assms(1) show ?thesis by simp
next
  case (Own e)
  from js_get_Own[OF Own] have "part \<in> set (map fst cur)" by force
  with Own assms(1) show ?thesis
    by (auto simp: keys_js_replace split: option.splits sum.splits)
next
  case Undefined
  from js_get_Undefined[OF Undefined] have "part \<notin> set (map fst cur)" by simp
  with Undefined assms show ?thesis
    by (auto simp: keys_js_add_plain split: sum.splits if_splits)
qed

lemma add_files_keys:
  "add_files root files = Inr root' \<Longrightarrow>
   list_all (\<lambda>f. list_all (\<lambda>part. \<not> is_array_index part) (take 1 (path_parts f))) files \<Longrightarrow>
   map fst root' =
     foldl (\<lambda>acc x. if x \<in> set acc then acc else acc @ [x]) (map fst root)
       (concat (map (\<lambda>f. take 1 (path_parts f)) files))"
proof (induction files arbitrary: root)
  case Nil
  then show ?case by simp
next
  case (Cons f files)
  show ?case
  proof (cases "path_parts f")
    case Nil
    with Cons show ?thesis by (cases "f = []") (auto split: sum.splits)
  next
    case (Cons part rest)
    then have fne: "f \<noteq> []" by (auto simp: path_parts_def)
    from Cons.prems(1) fne Cons obtain r1 where
      w: "walk_parts root [] (part # rest) = Inr r1" and a: "add_files r1 files = Inr root'"
      by (auto split: sum.splits)
    from Cons.prems(2) Cons have np: "\<not> is_array_index part"
      and rest: "list_all (\<lambda>f. list_all (\<lambda>part. \<not> is_array_index part) (take 1 (path_parts f))) files"
      by simp_all
    from Cons.IH[OF a rest] walk_parts_keys[OF w np] Cons show ?thesis by simp
  qed
qed

lemma buildTree_top_level_order:
  assumes "buildTree files = Inr t"
    and "list_all (\<lambda>f. list_all (\<lambda>part. \<not> is_array_index part) (take 1 (path_parts f))) files"
  shows "map name t = first_segments files"
proof -
  from assms(1) obtain root where a: "add_files [] files = Inr root" and t: "t = convert root"
    by (auto simp: buildTree_def split: sum.splits)
  from add_files_wf[OF _ _ a] have "wf_obj [] root" by simp
  then have "map name t = map fst root" unfolding t by (rule convert_names)
  with add_files_keys[OF a assms(2)] show ?thesis
    by (simp add: first_segments_def js_set_values_def)
qed

section \<open>Properties of the built tree\<close>

text \<open>
  C9. No node of a tree that \<^verbatim>\<open>buildTree\<close> returns has an empty \<^verbatim>\<open>children\<close> array: a
  node has no \<^verbatim>\<open>children\<close> field, or one with at least one element.
\<close>

theorem buildTree_no_empty_children:
  assumes "buildTree files = Inr t"
  shows "list_all (\<lambda>n. case children n of None \<Rightarrow> True | Some cs \<Rightarrow> cs \<noteq> []) (all_nodes t)"
proof -
  from assms obtain root where t: "t = convert root"
    by (auto simp: buildTree_def split: sum.splits)
  have "list_all (\<lambda>n. children n \<noteq> Some []) (all_nodes (convert root))"
    by (rule convert_children_nonempty)
  then show ?thesis
    unfolding t by (auto simp: list_all_iff split: option.splits)
qed

theorem buildTree_no_empty_children_witness:
  "buildTree [''root/a.txt'', ''root/sub/b.txt'', ''root/sub/c.txt''] = Inr [root_node]
   \<and> list_all (\<lambda>n. case children n of None \<Rightarrow> True | Some cs \<Rightarrow> cs \<noteq> [])
        (all_nodes [root_node])"
  using buildTree_no_empty_children[OF buildTree_example] buildTree_example by simp

text \<open>
  C10. In a tree that \<^verbatim>\<open>buildTree\<close> returns, the path of every node has no backslash
  and no empty segment (splitting it at \<^verbatim>\<open>/\<close> gives no empty piece: it is not empty, has
  no \<^verbatim>\<open>/\<close> at either end and no \<^verbatim>\<open>//\<close>); the path of a top-level node is its name, and the
  path of every child is the path of its parent, \<^verbatim>\<open>/\<close>, and the name of the child.
\<close>

theorem buildTree_paths_wellformed:
  assumes "buildTree files = Inr t"
  shows "list_all (\<lambda>n. backslash \<notin> set (path n) \<and> [] \<notin> set (split_on CHR ''/'' (path n))
                    \<and> path n \<noteq> [] \<and> hd (path n) \<noteq> CHR ''/'' \<and> last (path n) \<noteq> CHR ''/''
                    \<and> \<not> has_adjacent CHR ''/'' (path n))
           (all_nodes t)
       \<and> list_all (\<lambda>n. path n = name n) t
       \<and> list_all (\<lambda>n. case children n of None \<Rightarrow> True
                       | Some cs \<Rightarrow> list_all (\<lambda>c. path c = path n @ ''/'' @ name c) cs)
           (all_nodes t)"
proof -
  from buildTree_wf[OF assms] have wf: "wf_tree [] t" by simp
  have "list_all (\<lambda>n. backslash \<notin> set (path n) \<and> [] \<notin> set (split_on CHR ''/'' (path n))
                    \<and> path n \<noteq> [] \<and> hd (path n) \<noteq> CHR ''/'' \<and> last (path n) \<noteq> CHR ''/''
                    \<and> \<not> has_adjacent CHR ''/'' (path n))
          (all_nodes t)"
    unfolding list_all_iff
    using wf_tree_path_segments[OF wf] no_empty_piece_iff[of "CHR ''/''"] by simp
  moreover from wf_tree_child_paths[OF wf]
  have "list_all (\<lambda>n. case children n of None \<Rightarrow> True
                     | Some cs \<Rightarrow> list_all (\<lambda>c. path c = path n @ ''/'' @ name c) cs)
          (all_nodes t)"
    and "list_all (\<lambda>n. path n = name n) t"
    by simp_all
  ultimately show ?thesis by simp
qed

theorem buildTree_paths_wellformed_witness:
  "buildTree [''root/a.txt'', ''root/sub/b.txt'', ''root/sub/c.txt''] = Inr [root_node]
   \<and> list_all (\<lambda>n. backslash \<notin> set (path n) \<and> [] \<notin> set (split_on CHR ''/'' (path n))
                    \<and> path n \<noteq> [] \<and> hd (path n) \<noteq> CHR ''/'' \<and> last (path n) \<noteq> CHR ''/''
                    \<and> \<not> has_adjacent CHR ''/'' (path n))
        (all_nodes [root_node])
   \<and> list_all (\<lambda>n. path n = name n) [root_node]
   \<and> list_all (\<lambda>n. case children n of None \<Rightarrow> True
                    | Some cs \<Rightarrow> list_all (\<lambda>c. path c = path n @ ''/'' @ name c) cs)
        (all_nodes [root_node])"
  using buildTree_paths_wellformed[OF buildTree_example] buildTree_example by simp

section \<open>Toggling one file\<close>

lemma leaf_not_folder_path:
  assumes "distinct (map path (all_nodes t))" "q \<in> set (leaf_paths t)"
  shows "q \<notin> set (folder_paths t)"
proof
  assume "q \<in> set (folder_paths t)"
  then obtain f where f: "f \<in> set (all_nodes t)" "is_folder f" "path f = q"
    by (auto simp: folder_paths_def)
  from assms(2) obtain l where l: "l \<in> set (all_nodes t)" "\<not> is_folder l" "path l = q"
    by (auto simp: leaf_paths_def)
  from assms(1) f(1) l(1) f(3) l(3) have "f = l"
    by (auto simp: distinct_map dest: inj_onD)
  with f(2) l(2) show False by simp
qed

text \<open>
  C8. In a tree that \<^verbatim>\<open>buildTree\<close> returns, \<^verbatim>\<open>toggleFile\<close> of the path \<open>p\<close> of a file
  flips the membership of \<open>p\<close> and leaves the membership of the path \<open>q\<close> of every
  other file as it is.
\<close>

theorem toggleFile_other_files_unchanged:
  assumes "buildTree files = Inr t"
    and "p \<in> set (leaf_paths t)" and "q \<in> set (leaf_paths t)" and "q \<noteq> p"
  shows "(q \<in> set (toggleFile t sel p)) = (q \<in> set sel)
       \<and> (p \<in> set (toggleFile t sel p)) = (p \<notin> set sel)"
proof -
  from buildTree_distinct_paths[OF assms(1)] have d: "distinct (map path (all_nodes t))" .
  from leaf_not_folder_path[OF d assms(2)] leaf_not_folder_path[OF d assms(3)] assms(4)
  show ?thesis
    by (auto simp: toggleFile_def updateParentStates_frame)
qed

theorem toggleFile_other_files_unchanged_witness:
  "buildTree [''root/a.txt'', ''root/sub/b.txt'', ''root/sub/c.txt''] = Inr [root_node]
   \<and> ''root/a.txt'' \<in> set (leaf_paths [root_node])
   \<and> ''root/sub/b.txt'' \<in> set (leaf_paths [root_node])
   \<and> ''root/sub/b.txt'' \<noteq> ''root/a.txt''
   \<and> (''root/sub/b.txt'' \<in> set (toggleFile [root_node] [''root/sub/b.txt''] ''root/a.txt''))
   \<and> (''root/a.txt'' \<in> set (toggleFile [root_node] [''root/sub/b.txt''] ''root/a.txt''))"
proof -
  have p: "''root/a.txt'' \<in> set (leaf_paths [root_node])"
    and q: "''root/sub/b.txt'' \<in> set (leaf_paths [root_node])"
    by (simp_all add: leaf_paths_def is_folder_def root_node_def sub_node_def)
  have ne: "''root/sub/b.txt'' \<noteq> ''root/a.txt''" by simp
  from toggleFile_other_files_unchanged[OF buildTree_example p q ne, of "[''root/sub/b.txt'']"]
    buildTree_example p q
  show ?thesis by simp
qed

section \<open>What updateParentStates stores\<close>

lemma leaf_paths_simps:
  "leaf_paths [] = []"
  "leaf_paths (FileNode n p None # cs) = p # leaf_paths cs"
  "leaf_paths (FileNode n p (Some ds) # cs) = leaf_paths ds @ leaf_paths cs"
  by (simp_all add: leaf_paths_def is_folder_def)

lemma leaf_paths_Cons: "leaf_paths (c # cs) = leaf_paths [c] @ leaf_paths cs"
  by (simp add: leaf_paths_def)

lemma descendants_leaf_paths:
  "getAllDescendantFiles node = leaf_paths [node]"
  "descendantFilesOf nodes = leaf_paths nodes"
proof (induction node and nodes rule: getAllDescendantFiles_descendantFilesOf.induct)
  case (1 n p)
  show ?case by (simp add: leaf_paths_simps)
next
  case (2 n p cs)
  then show ?case by (simp add: leaf_paths_simps)
next
  case 3
  show ?case by (simp add: leaf_paths_simps)
next
  case (4 c cs)
  then show ?case using leaf_paths_Cons[of c cs] by simp
qed

lemma derived_folders_simps:
  "derived_folders sel [] = []"
  "derived_folders sel (FileNode n p None # cs) = derived_folders sel cs"
  "derived_folders sel (FileNode n p (Some ds) # cs) =
     (if list_all (\<lambda>x. x \<in> set sel) (leaf_paths ds) then [p] else [])
       @ derived_folders sel ds @ derived_folders sel cs"
  by (simp_all add: derived_folders_def is_folder_def descendants_leaf_paths(2)[symmetric])

lemma derived_folders_Cons:
  "derived_folders sel (c # cs) = derived_folders sel [c] @ derived_folders sel cs"
  by (simp add: derived_folders_def)

lemma derived_subset: "set (derived_folders sel t) \<subseteq> set (folder_paths t)"
  by (auto simp: derived_folders_def folder_paths_def)

lemma derived_cong:
  "(\<And>x. x \<in> set (leaf_paths [node]) \<Longrightarrow> (x \<in> set a) = (x \<in> set b)) \<Longrightarrow>
   derived_folders a [node] = derived_folders b [node]"
  "(\<And>x. x \<in> set (leaf_paths nodes) \<Longrightarrow> (x \<in> set a) = (x \<in> set b)) \<Longrightarrow>
   derived_folders a nodes = derived_folders b nodes"
proof (induction node and nodes rule: getAllDescendantFiles_descendantFilesOf.induct)
  case (1 n p)
  show ?case by (simp add: derived_folders_simps)
next
  case (2 n p cs)
  have e: "(x \<in> set a) = (x \<in> set b)" if "x \<in> set (leaf_paths cs)" for x
    using "2.prems"[of x] that by (simp add: leaf_paths_simps)
  then have "list_all (\<lambda>x. x \<in> set a) (leaf_paths cs) = list_all (\<lambda>x. x \<in> set b) (leaf_paths cs)"
    by (auto simp: list_all_iff)
  with "2.IH"[OF e] show ?case by (simp add: derived_folders_simps)
next
  case 3
  show ?case by (simp add: derived_folders_simps)
next
  case (4 c cs)
  have "derived_folders a [c] = derived_folders b [c]"
    using "4.prems" leaf_paths_Cons[of c cs] by (intro "4.IH"(1)) simp
  moreover have "derived_folders a cs = derived_folders b cs"
    using "4.prems" leaf_paths_Cons[of c cs] by (intro "4.IH"(2)) simp
  ultimately show ?case
    using derived_folders_Cons[of a c cs] derived_folders_Cons[of b c cs] by simp
qed

lemma nodes_of_subset: "n \<in> set cs \<Longrightarrow> set (nodes_of n) \<subseteq> set (all_nodes cs)"
  by (induction cs) auto

lemma list_all_leaf_paths:
  "list_all (\<lambda>state. state) (map (\<lambda>n. list_all P (leaf_paths [n])) cs) = list_all P (leaf_paths cs)"
proof (induction cs)
  case Nil
  show ?case by (simp add: leaf_paths_simps)
next
  case (Cons c cs)
  then show ?case using leaf_paths_Cons[of c cs] by simp
qed

lemma processNode_result:
  "distinct us \<Longrightarrow> distinct (folder_paths [node]) \<Longrightarrow>
   set (leaf_paths [node]) \<inter> set (folder_paths [node]) = {} \<Longrightarrow>
   fst (processNode node us) = list_all (\<lambda>x. x \<in> set us) (leaf_paths [node])
   \<and> distinct (snd (processNode node us))
   \<and> set (snd (processNode node us))
       = (set us - set (folder_paths [node])) \<union> set (derived_folders us [node])"
  "distinct us \<Longrightarrow> distinct (folder_paths nodes) \<Longrightarrow>
   set (leaf_paths nodes) \<inter> set (folder_paths nodes) = {} \<Longrightarrow>
   fst (processNodes nodes us) = map (\<lambda>n. list_all (\<lambda>x. x \<in> set us) (leaf_paths [n])) nodes
   \<and> distinct (snd (processNodes nodes us))
   \<and> set (snd (processNodes nodes us))
       = (set us - set (folder_paths nodes)) \<union> set (derived_folders us nodes)"
proof (induction node us and nodes us rule: processNode_processNodes.induct)
  case (1 n p us)
  then show ?case by (simp add: leaf_paths_simps folder_paths_simps derived_folders_simps)
next
  case (2 n p cs us)
  obtain bs u1 where pr: "processNodes cs us = (bs, u1)" by (cases "processNodes cs us")
  from "2.prems" have dcs: "distinct (folder_paths cs)" and pn: "p \<notin> set (folder_paths cs)"
    and dj: "set (leaf_paths cs) \<inter> set (folder_paths cs) = {}"
    by (auto simp: folder_paths_simps leaf_paths_simps)
  from "2.IH"[OF "2.prems"(1) dcs dj] pr
  have bs: "bs = map (\<lambda>n. list_all (\<lambda>x. x \<in> set us) (leaf_paths [n])) cs"
    and d1: "distinct u1"
    and s1: "set u1 = (set us - set (folder_paths cs)) \<union> set (derived_folders us cs)"
    by simp_all
  have all: "list_all (\<lambda>state. state) bs = list_all (\<lambda>x. x \<in> set us) (leaf_paths cs)"
    unfolding bs by (rule list_all_leaf_paths)
  have pg: "p \<notin> set (derived_folders us cs)" using pn derived_subset[of us cs] by blast
  show ?case
  proof (cases "list_all (\<lambda>x. x \<in> set us) (leaf_paths cs)")
    case True
    with pr all d1 s1 pg show ?thesis
      by (auto simp: leaf_paths_simps folder_paths_simps derived_folders_simps)
  next
    case False
    with pr all d1 s1 pg show ?thesis
      by (auto simp: leaf_paths_simps folder_paths_simps derived_folders_simps)
  qed
next
  case (3 us)
  then show ?case by (simp add: leaf_paths_simps folder_paths_simps derived_folders_simps)
next
  case (4 c cs us)
  obtain b u1 where p1: "processNode c us = (b, u1)" by (cases "processNode c us")
  obtain bs u2 where p2: "processNodes cs u1 = (bs, u2)" by (cases "processNodes cs u1")
  from "4.prems"(2) have dc: "distinct (folder_paths [c])" and dcs: "distinct (folder_paths cs)"
    and ff: "set (folder_paths [c]) \<inter> set (folder_paths cs) = {}"
    by (simp_all add: folder_paths_Cons[of c cs])
  from "4.prems"(3) have lc: "set (leaf_paths [c]) \<inter> set (folder_paths [c]) = {}"
    and lcs: "set (leaf_paths cs) \<inter> set (folder_paths cs) = {}"
    and x1: "set (leaf_paths cs) \<inter> set (folder_paths [c]) = {}"
    by (auto simp: folder_paths_Cons[of c cs] leaf_paths_Cons[of c cs])
  from "4.IH"(1)[OF "4.prems"(1) dc lc] p1
  have b: "b = list_all (\<lambda>x. x \<in> set us) (leaf_paths [c])" and d1: "distinct u1"
    and s1: "set u1 = (set us - set (folder_paths [c])) \<union> set (derived_folders us [c])"
    by simp_all
  from "4.IH"(2)[OF p1[symmetric] d1 dcs lcs] p2
  have bs: "bs = map (\<lambda>n. list_all (\<lambda>x. x \<in> set u1) (leaf_paths [n])) cs" and d2: "distinct u2"
    and s2: "set u2 = (set u1 - set (folder_paths cs)) \<union> set (derived_folders u1 cs)"
    by simp_all
  have same: "(x \<in> set u1) = (x \<in> set us)" if "x \<in> set (leaf_paths cs)" for x
    using that x1 s1 derived_subset[of us "[c]"] by auto
  have g: "derived_folders u1 cs = derived_folders us cs"
    by (rule derived_cong(2)) (rule same)
  have bs': "bs = map (\<lambda>n. list_all (\<lambda>x. x \<in> set us) (leaf_paths [n])) cs"
    unfolding bs
  proof (rule map_cong[OF refl])
    fix n assume n: "n \<in> set cs"
    have "set (leaf_paths [n]) \<subseteq> set (leaf_paths cs)"
      using nodes_of_subset[OF n] by (auto simp: leaf_paths_def)
    with same show "list_all (\<lambda>x. x \<in> set u1) (leaf_paths [n])
        = list_all (\<lambda>x. x \<in> set us) (leaf_paths [n])"
      by (auto simp: list_all_iff)
  qed
  have "set u2 = (set us - set (folder_paths (c # cs))) \<union> set (derived_folders us (c # cs))"
    using s1 s2 g ff derived_subset[of us "[c]"] derived_subset[of us cs]
      folder_paths_Cons[of c cs] derived_folders_Cons[of us c cs]
    by auto
  with p1 p2 b bs' d2 show ?case by simp
qed

lemma nodes_of_trans:
  "f \<in> set (nodes_of n) \<Longrightarrow> set (nodes_of f) \<subseteq> set (nodes_of n)"
  "f \<in> set (all_nodes t) \<Longrightarrow> set (nodes_of f) \<subseteq> set (all_nodes t)"
proof (induction n and t rule: nodes_of_all_nodes.induct)
  case (1 n p ch)
  then show ?case by (cases ch) auto
next
  case 2
  then show ?case by simp
next
  case (3 c cs)
  then show ?case by auto
qed

lemma descendants_subset:
  assumes "f \<in> set (all_nodes t)"
  shows "set (getAllDescendantFiles f) \<subseteq> set (leaf_paths t)"
  using nodes_of_trans(2)[OF assms] by (auto simp: descendants_leaf_paths(1) leaf_paths_def)

lemma updateParentStates_consistent:
  assumes d: "distinct (map path (all_nodes t))" and du: "distinct us"
  shows "consistent t (updateParentStates t us) \<and> distinct (updateParentStates t us)"
proof -
  let ?u = "updateParentStates t us"
  have dF: "distinct (folder_paths t)"
    unfolding folder_paths_def using d by (rule distinct_map_filter)
  have dj: "set (leaf_paths t) \<inter> set (folder_paths t) = {}"
    using leaf_not_folder_path[OF d] by blast
  from processNode_result(2)[OF du dF dj]
  have du': "distinct ?u"
    and su: "set ?u = (set us - set (folder_paths t)) \<union> set (derived_folders us t)"
    by (simp_all add: updateParentStates_def)
  have leaf_same: "(x \<in> set ?u) = (x \<in> set us)" if "x \<in> set (leaf_paths t)" for x
    using that dj su derived_subset[of us t] by auto
  have "folder_consistent ?u f" if f: "f \<in> set (all_nodes t)" and fo: "is_folder f" for f
  proof -
    have sub: "set (getAllDescendantFiles f) \<subseteq> set (leaf_paths t)"
      using f by (rule descendants_subset)
    have r: "list_all (\<lambda>x. x \<in> set ?u) (getAllDescendantFiles f)
           = list_all (\<lambda>x. x \<in> set us) (getAllDescendantFiles f)"
      using sub leaf_same by (auto simp: list_all_iff)
    have pf: "path f \<in> set (folder_paths t)" using f fo by (auto simp: folder_paths_def)
    have "(path f \<in> set (derived_folders us t))
          = list_all (\<lambda>x. x \<in> set us) (getAllDescendantFiles f)"
    proof
      assume "path f \<in> set (derived_folders us t)"
      then obtain g where g: "g \<in> set (all_nodes t)"
        "list_all (\<lambda>x. x \<in> set us) (getAllDescendantFiles g)" "path g = path f"
        by (auto simp: derived_folders_def)
      from d g(1) f g(3) have "g = f" by (auto simp: distinct_map dest: inj_onD)
      with g(2) show "list_all (\<lambda>x. x \<in> set us) (getAllDescendantFiles f)" by simp
    next
      assume "list_all (\<lambda>x. x \<in> set us) (getAllDescendantFiles f)"
      with f fo show "path f \<in> set (derived_folders us t)"
        by (auto simp: derived_folders_def)
    qed
    with pf su r show ?thesis by (auto simp: folder_consistent_def)
  qed
  then have "consistent t ?u" by (simp add: consistent_def list_all_iff)
  with du' show ?thesis by simp
qed

lemma distinct_js_set_values_aux:
  "distinct acc \<Longrightarrow> distinct (foldl (\<lambda>acc x. if x \<in> set acc then acc else acc @ [x]) acc xs)"
  by (induction xs arbitrary: acc) auto

lemma distinct_js_set_values: "distinct (js_set_values xs)"
  by (simp add: js_set_values_def distinct_js_set_values_aux)

lemma distinct_toggleFolder: "distinct sel \<Longrightarrow> distinct (toggleFolder sel node)"
  by (auto simp: toggleFolder_def distinct_js_set_values split: option.splits)

lemma toggleFile_consistent:
  assumes "distinct (map path (all_nodes t))" "distinct sel"
  shows "consistent t (toggleFile t sel p) \<and> distinct (toggleFile t sel p)"
proof -
  have "distinct (if p \<in> set sel then filter (\<lambda>f. f \<noteq> p) sel else sel @ [p])"
    using assms(2) by simp
  from updateParentStates_consistent[OF assms(1) this] show ?thesis
    by (simp add: toggleFile_def)
qed

lemma distinct_apply_ops:
  "distinct (map path (all_nodes t)) \<Longrightarrow> distinct sel \<Longrightarrow> distinct (apply_ops t sel ops)"
proof (induction ops arbitrary: sel)
  case Nil
  then show ?case by (simp add: apply_ops_def)
next
  case (Cons op ops)
  have "distinct (apply_op t sel op)"
    using Cons.prems by (cases op) (simp_all add: toggleFile_consistent distinct_toggleFolder)
  from Cons.IH[OF Cons.prems(1) this] show ?case by (simp add: apply_ops_def)
qed

lemma toggleFolder_frame:
  "q \<notin> set (getAllDescendantFiles node) \<Longrightarrow> (q \<in> set (toggleFolder sel node)) = (q \<in> set sel)"
  by (auto simp: toggleFolder_def set_js_set_values split: option.splits)

text \<open>
  \<^verbatim>\<open>toggleFile\<close> does maintain the stored membership of the folders: for a tree that
  \<^verbatim>\<open>buildTree\<close> returns and every sequence of toggles from the empty selection, after
  each \<^verbatim>\<open>toggleFile\<close> the path of every folder is in the selection exactly when the
  paths of all its descendant files are.
\<close>

theorem toggleFile_restores_consistency:
  assumes "buildTree files = Inr t"
  shows "consistent t (apply_ops t [] (ops @ [ToggleLeaf p]))"
proof -
  from buildTree_distinct_paths[OF assms] have d: "distinct (map path (all_nodes t))" .
  have "distinct (apply_ops t [] ops)" by (rule distinct_apply_ops[OF d]) simp
  from toggleFile_consistent[OF d this, of p]
  show ?thesis by (simp add: apply_ops_def)
qed

theorem toggleFile_restores_consistency_witness:
  "buildTree [''root/a.txt'', ''root/sub/b.txt'', ''root/sub/c.txt''] = Inr [root_node]
   \<and> \<not> consistent [root_node] (apply_ops [root_node] [] [ToggleFolder sub_node])
   \<and> consistent [root_node]
        (apply_ops [root_node] [] ([ToggleFolder sub_node] @ [ToggleLeaf ''root/a.txt'']))"
proof -
  have c: "\<not> consistent [root_node] (apply_ops [root_node] [] [ToggleFolder sub_node])"
    unfolding root_node_def sub_node_def by code_simp
  from toggleFile_restores_consistency[OF buildTree_example,
      of "[ToggleFolder sub_node]" "''root/a.txt''"]
    c buildTree_example
  show ?thesis by simp
qed

section \<open>Toggling a path that the tree does not have\<close>

text \<open>
  C4, amended. \<^verbatim>\<open>toggleFile\<close> of a path \<open>p\<close> that no node of the tree has flips the
  membership of \<open>p\<close> and changes the membership of no other path that is not the path
  of a folder of the tree. The paths of the folders are derived again from the files:
  where the node paths of the tree are distinct (as in every tree that \<^verbatim>\<open>buildTree\<close>
  returns) and the array \<^verbatim>\<open>selected\<close> has no entry twice, afterwards the path of every
  folder is in the selection exactly when the paths of all its descendant files are,
  which are those that were in the selection before.
\<close>

theorem toggleFile_absent:
  assumes "p \<notin> set (map path (all_nodes t))"
  shows "(p \<in> set (toggleFile t sel p)) = (p \<notin> set sel)
       \<and> (\<forall>q. q \<noteq> p \<and> q \<notin> set (folder_paths t) \<longrightarrow>
            (q \<in> set (toggleFile t sel p)) = (q \<in> set sel))
       \<and> (distinct (map path (all_nodes t)) \<and> distinct sel \<longrightarrow>
            consistent t (toggleFile t sel p)
            \<and> list_all (\<lambda>f. (path f \<in> set (toggleFile t sel p))
                             = list_all (\<lambda>x. x \<in> set sel) (getAllDescendantFiles f))
                 (filter is_folder (all_nodes t)))"
proof -
  let ?r = "toggleFile t sel p"
  have pf: "p \<notin> set (folder_paths t)" using assms folder_paths_subset by blast
  have flip: "(p \<in> set ?r) = (p \<notin> set sel)"
    using pf by (auto simp: toggleFile_def updateParentStates_frame)
  have frame: "(q \<in> set ?r) = (q \<in> set sel)" if "q \<noteq> p" "q \<notin> set (folder_paths t)" for q
    using that by (auto simp: toggleFile_def updateParentStates_frame)
  have derived: "consistent t ?r
      \<and> list_all (\<lambda>f. (path f \<in> set ?r) = list_all (\<lambda>x. x \<in> set sel) (getAllDescendantFiles f))
           (filter is_folder (all_nodes t))"
    if d: "distinct (map path (all_nodes t))" and ds: "distinct sel"
  proof -
    from toggleFile_consistent[OF d ds, of p] have c: "consistent t ?r" by simp
    have "(path f \<in> set ?r) = list_all (\<lambda>x. x \<in> set sel) (getAllDescendantFiles f)"
      if f: "f \<in> set (all_nodes t)" and fo: "is_folder f" for f
    proof -
      from c f fo have fc: "(path f \<in> set ?r) = list_all (\<lambda>x. x \<in> set ?r) (getAllDescendantFiles f)"
        by (simp add: consistent_def list_all_iff folder_consistent_def)
      have "(x \<in> set ?r) = (x \<in> set sel)" if x: "x \<in> set (getAllDescendantFiles f)" for x
      proof -
        from descendants_subset[OF f] x have xl: "x \<in> set (leaf_paths t)" by blast
        then have "x \<in> set (map path (all_nodes t))" by (auto simp: leaf_paths_def)
        with assms have "x \<noteq> p" by blast
        moreover from leaf_not_folder_path[OF d xl] have "x \<notin> set (folder_paths t)" .
        ultimately show ?thesis by (rule frame)
      qed
      then have "list_all (\<lambda>x. x \<in> set ?r) (getAllDescendantFiles f)
               = list_all (\<lambda>x. x \<in> set sel) (getAllDescendantFiles f)"
        by (auto simp: list_all_iff)
      with fc show ?thesis by simp
    qed
    with c show ?thesis by (simp add: list_all_iff)
  qed
  from flip frame derived show ?thesis by blast
qed

theorem toggleFile_absent_witness:
  "''ghost.txt'' \<notin> set (map path (all_nodes [root_node]))
   \<and> distinct (map path (all_nodes [root_node]))
   \<and> distinct [''root/sub/b.txt'', ''root/sub/c.txt'', ''root'']
   \<and> \<not> consistent [root_node] [''root/sub/b.txt'', ''root/sub/c.txt'', ''root'']
   \<and> ''ghost.txt''
        \<in> set (toggleFile [root_node] [''root/sub/b.txt'', ''root/sub/c.txt'', ''root''] ''ghost.txt'')
   \<and> ''root/sub/b.txt''
        \<in> set (toggleFile [root_node] [''root/sub/b.txt'', ''root/sub/c.txt'', ''root''] ''ghost.txt'')
   \<and> ''root/a.txt''
        \<notin> set (toggleFile [root_node] [''root/sub/b.txt'', ''root/sub/c.txt'', ''root''] ''ghost.txt'')
   \<and> consistent [root_node]
        (toggleFile [root_node] [''root/sub/b.txt'', ''root/sub/c.txt'', ''root''] ''ghost.txt'')
   \<and> ''root/sub''
        \<in> set (toggleFile [root_node] [''root/sub/b.txt'', ''root/sub/c.txt'', ''root''] ''ghost.txt'')
   \<and> ''root''
        \<notin> set (toggleFile [root_node] [''root/sub/b.txt'', ''root/sub/c.txt'', ''root''] ''ghost.txt'')"
proof -
  let ?sel = "[''root/sub/b.txt'', ''root/sub/c.txt'', ''root'']"
  have h: "''ghost.txt'' \<notin> set (map path (all_nodes [root_node]))"
    by (simp add: root_node_def sub_node_def)
  have d: "distinct (map path (all_nodes [root_node]))"
    by (rule buildTree_distinct_paths[OF buildTree_example])
  have ds: "distinct ?sel" by simp
  have nc: "\<not> consistent [root_node] ?sel"
    unfolding root_node_def sub_node_def by code_simp
  have f: "''root/sub/b.txt'' \<notin> set (folder_paths [root_node])"
          "''root/a.txt'' \<notin> set (folder_paths [root_node])"
    by (simp_all add: root_node_def sub_node_def folder_paths_simps)
  have fl: "filter is_folder (all_nodes [root_node]) = [root_node, sub_node]"
    by (simp add: root_node_def sub_node_def is_folder_def)
  have g: "getAllDescendantFiles sub_node = [''root/sub/b.txt'', ''root/sub/c.txt'']"
          "getAllDescendantFiles root_node = [''root/a.txt'', ''root/sub/b.txt'', ''root/sub/c.txt'']"
          "path sub_node = ''root/sub''" "path root_node = ''root''"
    by (simp_all add: root_node_def sub_node_def)
  from toggleFile_absent[OF h, of ?sel] h d ds nc f fl g show ?thesis by simp
qed

end
